theory Spec2Isabelle
  imports
    Main
    "HOL-Library.Multiset"
    "HOL-Library.Char_ord"
    "HOL-Library.List_Lexorder"
begin

section \<open>Data model\<close>

text \<open>
  JavaScript values, as far as the project pipeline meets them. An object is the list of
  its own properties in creation order; \<open>JUndefined\<close> is the value \<^verbatim>\<open>undefined\<close>,
  which a key can be bound to (a key bound to \<^verbatim>\<open>undefined\<close> is not an absent key).
  Numbers are the integers (star and download counts).
\<close>

datatype jsvalue =
    JUndefined
  | JNull
  | JBoolean bool
  | JNumber int
  | JString string
  | JObject "(string \<times> jsvalue) list"

text \<open>
  An optional property of an interface (\<^verbatim>\<open>description?: string\<close>): the key is absent, or
  bound to \<^verbatim>\<open>undefined\<close>, or bound to a value.
\<close>

datatype 'a optional = Absent | Undefined | Defined 'a

text \<open>
  \<^verbatim>\<open>export interface Project\<close> of \<^verbatim>\<open>src/data/projects/index.ts\<close>. The required
  properties always hold a value of their type.
\<close>

record project =
  name :: string
  url :: string
  archived :: bool
  description :: "string optional"
  homepageUrl :: "string optional"
  stars :: int
  downloads :: int
  language :: "string optional"
  githubUrl :: string

fun optional_entry :: "string \<Rightarrow> string optional \<Rightarrow> (string \<times> jsvalue) list" where
  "optional_entry k Absent = []"
| "optional_entry k Undefined = [(k, JUndefined)]"
| "optional_entry k (Defined s) = [(k, JString s)]"

text \<open>The own properties of a project object, key by key.\<close>

definition entries :: "project \<Rightarrow> (string \<times> jsvalue) list" where
  "entries p =
     [(''name'', JString (name p)), (''url'', JString (url p)),
      (''archived'', JBoolean (archived p))]
     @ optional_entry ''description'' (description p)
     @ optional_entry ''homepageUrl'' (homepageUrl p)
     @ [(''stars'', JNumber (stars p)), (''downloads'', JNumber (downloads p))]
     @ optional_entry ''language'' (language p)
     @ [(''githubUrl'', JString (githubUrl p))]"

section \<open>Removing undefined values\<close>

text \<open>
  Modelled from the spec: \<^verbatim>\<open>deleteUndefined\<close> of \<^verbatim>\<open>~/utils/object\<close>, which the pages
  import and whose source is not among the files. The specification says: in place, for
  every record and every key whose value is absent, removes that key entirely
  (recursively for nested objects). The mutation is modelled by returning the new
  contents of the argument.
\<close>

fun deleteUndefined_value :: "jsvalue \<Rightarrow> jsvalue" where
  "deleteUndefined_value (JObject kvs) =
     JObject (map (\<lambda>(k, v). (k, deleteUndefined_value v))
                (filter (\<lambda>(k, v). v \<noteq> JUndefined) kvs))"
| "deleteUndefined_value v = v"

definition deleteUndefined_object :: "(string \<times> jsvalue) list \<Rightarrow> (string \<times> jsvalue) list" where
  "deleteUndefined_object kvs =
     map (\<lambda>(k, v). (k, deleteUndefined_value v)) (filter (\<lambda>(k, v). v \<noteq> JUndefined) kvs)"

definition deleteUndefined_objects ::
  "(string \<times> jsvalue) list list \<Rightarrow> (string \<times> jsvalue) list list" where
  "deleteUndefined_objects L = map deleteUndefined_object L"

text \<open>
  Modelled from the spec: the same operation on the typed view of a project, whose only
  keys that can be bound to \<^verbatim>\<open>undefined\<close> are the optional ones.
\<close>

fun delete_if_undefined :: "'a optional \<Rightarrow> 'a optional" where
  "delete_if_undefined Undefined = Absent"
| "delete_if_undefined v = v"

definition deleteUndefined_project :: "project \<Rightarrow> project" where
  "deleteUndefined_project p =
     p\<lparr>description := delete_if_undefined (description p),
       homepageUrl := delete_if_undefined (homepageUrl p),
       language := delete_if_undefined (language p)\<rparr>"

definition deleteUndefined :: "project list \<Rightarrow> project list" where
  "deleteUndefined projects = map deleteUndefined_project projects"

fun is_object :: "jsvalue \<Rightarrow> bool" where
  "is_object (JObject kvs) = True"
| "is_object v = False"

section \<open>The loader\<close>

text \<open>
  What a consumer of an async generator sees when it pulls it to the end: the generator
  suspends at an \<^verbatim>\<open>await\<close>, hands over an item at a \<^verbatim>\<open>yield\<close>, or returns.
\<close>

datatype 'a async_generator =
    Return
  | Await "'a async_generator"
  | Yield 'a "'a async_generator"

text \<open>
  \<^verbatim>\<open>loadProjects\<close> of \<^verbatim>\<open>src/data/projects/index.ts\<close>:
  \<^verbatim>\<open>for (const project of fakes) { await new Promise(r => setTimeout(r, 0)); yield project; }\<close>
  The imported fixture list \<^verbatim>\<open>fakes\<close> is a parameter.
\<close>

primrec loadProjects :: "project list \<Rightarrow> project async_generator" where
  "loadProjects [] = Return"
| "loadProjects (p # fakes) = Await (Yield p (loadProjects fakes))"

text \<open>The items a generator hands over, in order, and the number of its suspensions.\<close>

primrec yielded :: "'a async_generator \<Rightarrow> 'a list" where
  "yielded Return = []"
| "yielded (Await g) = yielded g"
| "yielded (Yield x g) = x # yielded g"

primrec suspensions :: "'a async_generator \<Rightarrow> nat" where
  "suspensions Return = 0"
| "suspensions (Await g) = Suc (suspensions g)"
| "suspensions (Yield x g) = suspensions g"

text \<open>Every \<^verbatim>\<open>yield\<close> comes right after a suspension of its own.\<close>

fun suspends_before_each_item :: "'a async_generator \<Rightarrow> bool" where
  "suspends_before_each_item Return = True"
| "suspends_before_each_item (Await (Yield x g)) = suspends_before_each_item g"
| "suspends_before_each_item g = False"

text \<open>
  Modelled from the spec: \<^verbatim>\<open>bufferIterable\<close> of \<^verbatim>\<open>~/utils/async\<close>, whose source is not
  among the files. The specification says: drains the full lazy sequence into an
  ordered, insertion-order-preserving list.
\<close>

primrec drain :: "'a async_generator \<Rightarrow> 'a list \<Rightarrow> 'a list" where
  "drain Return buffer = buffer"
| "drain (Await g) buffer = drain g buffer"
| "drain (Yield x g) buffer = drain g (buffer @ [x])"

definition bufferIterable :: "'a async_generator \<Rightarrow> 'a list" where
  "bufferIterable g = drain g []"

section \<open>Sorting\<close>

text \<open>
  \<^verbatim>\<open>Array.prototype.sort(compareFn)\<close>. The language standard fixes its result for a
  consistent comparator: the elements in an order where \<open>compareFn a b \<le> 0\<close> for every
  \<open>a\<close> placed before \<open>b\<close>, elements that compare equal keeping their input order (the
  sort is stable). Stable insertion from the right computes that list.
\<close>

fun insert_by :: "('a \<Rightarrow> 'a \<Rightarrow> int) \<Rightarrow> 'a \<Rightarrow> 'a list \<Rightarrow> 'a list" where
  "insert_by cmp x [] = [x]"
| "insert_by cmp x (y # ys) =
     (if cmp x y \<le> 0 then x # y # ys else y # insert_by cmp x ys)"

definition Array_sort :: "('a \<Rightarrow> 'a \<Rightarrow> int) \<Rightarrow> 'a list \<Rightarrow> 'a list" where
  "Array_sort cmp xs = foldr (insert_by cmp) xs []"

text \<open>
  What a comparator must satisfy for the sort to be determined: of two elements one is
  not after the other, and being not after is transitive.
\<close>

definition consistent_comparator :: "('a \<Rightarrow> 'a \<Rightarrow> int) \<Rightarrow> bool" where
  "consistent_comparator cmp \<longleftrightarrow>
     (\<forall>a b. 0 < cmp a b \<longrightarrow> cmp b a \<le> 0) \<and>
     (\<forall>a b c. cmp a b \<le> 0 \<and> cmp b c \<le> 0 \<longrightarrow> cmp a c \<le> 0)"

text \<open>
  The comparator of \<^verbatim>\<open>src/pages/projects/index.tsx\<close>:
  \<^verbatim>\<open>if (a.archived !== b.archived) return a.archived ? 1 : -1; return a.name.localeCompare(b.name);\<close>
  \<^verbatim>\<open>String.prototype.localeCompare\<close> is the platform's collation and is a parameter.
\<close>

definition by_archived_then_name ::
  "(string \<Rightarrow> string \<Rightarrow> int) \<Rightarrow> project \<Rightarrow> project \<Rightarrow> int" where
  "by_archived_then_name localeCompare a b =
     (if archived a \<noteq> archived b then (if archived a then 1 else - 1)
      else localeCompare (name a) (name b))"

text \<open>The comparator of the ranked page: \<^verbatim>\<open>(a, b) => b.stars - a.stars\<close>.\<close>

definition by_stars_descending :: "project \<Rightarrow> project \<Rightarrow> int" where
  "by_stars_descending a b = stars b - stars a"

text \<open>
  \<^verbatim>\<open>getStaticProps\<close> of the showcase page (\<^verbatim>\<open>src/pages/projects/index.tsx\<close>) and of
  the ranked page: buffer the loader, remove undefined values, sort.
\<close>

definition getStaticProps_showcase ::
  "(string \<Rightarrow> string \<Rightarrow> int) \<Rightarrow> project list \<Rightarrow> project list" where
  "getStaticProps_showcase localeCompare fakes =
     (let projects = bufferIterable (loadProjects fakes);
          projects = deleteUndefined projects
      in Array_sort (by_archived_then_name localeCompare) projects)"

definition getStaticProps_ranked :: "project list \<Rightarrow> project list" where
  "getStaticProps_ranked fakes =
     (let projects = bufferIterable (loadProjects fakes);
          projects = deleteUndefined projects
      in Array_sort by_stars_descending projects)"

text \<open>
  A comparison of strings by character code, one consistent collation, used where a
  concrete one is needed.
\<close>

definition compare_by_code :: "string \<Rightarrow> string \<Rightarrow> int" where
  "compare_by_code a b = (if a < b then - 1 else if a = b then 0 else 1)"

text \<open>A list is in showcase order: no archived project before a maintained one, and names
  ascending among projects of the same kind.\<close>

definition showcase_ordered :: "(string \<Rightarrow> string \<Rightarrow> int) \<Rightarrow> project list \<Rightarrow> bool" where
  "showcase_ordered localeCompare L =
     sorted_wrt (\<lambda>a b. (archived a \<longrightarrow> archived b) \<and>
                        (archived a = archived b \<longrightarrow> localeCompare (name a) (name b) \<le> 0)) L"

text \<open>
  A project object with the three properties the specification's example gives, the
  optional ones absent and the other required ones empty.
\<close>

definition example_project :: "string \<Rightarrow> bool \<Rightarrow> int \<Rightarrow> project" where
  "example_project n a s =
     \<lparr>name = n, url = [], archived = a, description = Absent, homepageUrl = Absent,
      stars = s, downloads = 0, language = Absent, githubUrl = []\<rparr>"

section \<open>String utilities\<close>

text \<open>
  Strings are lists of 8-bit characters, a JavaScript string being read as the bytes of
  its UTF-8 form. Every character the utilities single out (\<open>?\<close>, \<open>&\<close>, \<open>=\<close>, \<open>%\<close>,
  \<open>+\<close>, \<open>-\<close>, \<open>:\<close>, letters and digits) is ASCII, and the regular expressions' classes
  are ranges of ASCII codes.
\<close>

definition is_lower :: "char \<Rightarrow> bool" where
  "is_lower c \<longleftrightarrow> CHR ''a'' \<le> c \<and> c \<le> CHR ''z''"

definition is_upper :: "char \<Rightarrow> bool" where
  "is_upper c \<longleftrightarrow> CHR ''A'' \<le> c \<and> c \<le> CHR ''Z''"

definition is_digit :: "char \<Rightarrow> bool" where
  "is_digit c \<longleftrightarrow> CHR ''0'' \<le> c \<and> c \<le> CHR ''9''"

subsection \<open>isAbsoluteUrl\<close>

text \<open>
  \<^verbatim>\<open>isAbsoluteUrl = (url) => /^[a-z][a-z\d+\-.]*:/i.test(url)\<close>. Under the flag \<^verbatim>\<open>i\<close> the
  class \<^verbatim>\<open>[a-z]\<close> holds the letters of both cases. The test looks for a match at the start
  of the string: one letter, then any number of characters of the second class, then a
  colon.
\<close>

definition scheme_char :: "char \<Rightarrow> bool" where
  "scheme_char c \<longleftrightarrow>
     is_lower c \<or> is_upper c \<or> is_digit c \<or> c = CHR ''+'' \<or> c = CHR ''-'' \<or> c = CHR ''.''"

fun scheme_rest_then_colon :: "string \<Rightarrow> bool" where
  "scheme_rest_then_colon [] = False"
| "scheme_rest_then_colon (c # cs) =
     ((scheme_char c \<and> scheme_rest_then_colon cs) \<or> c = CHR '':'')"

definition isAbsoluteUrl :: "string \<Rightarrow> bool" where
  "isAbsoluteUrl href =
     (case href of
        [] \<Rightarrow> False
      | c # cs \<Rightarrow> (is_lower c \<or> is_upper c) \<and> scheme_rest_then_colon cs)"

text \<open>The letters, and the characters a scheme may continue with, written out.\<close>

definition ascii_letters :: string where
  "ascii_letters = ''abcdefghijklmnopqrstuvwxyzABCDEFGHIJKLMNOPQRSTUVWXYZ''"

definition scheme_alphabet :: string where
  "scheme_alphabet = ascii_letters @ ''0123456789+-.''"

subsection \<open>slugify\<close>

text \<open>
  \<^verbatim>\<open>text.toLowerCase().replace(/[^a-z0-9]+/g, '-').replace(/^-|-$/g, '')\<close>.
  \<^verbatim>\<open>String.prototype.toLowerCase\<close> follows the platform's Unicode case mappings, which
  reach beyond the ASCII letters (the Kelvin sign becomes \<open>k\<close>, the dotted capital I an
  \<open>i\<close> and a combining dot); it is a parameter of \<open>slugify\<close>, a function from strings to
  strings.
\<close>

definition is_slug_alnum :: "char \<Rightarrow> bool" where
  "is_slug_alnum c \<longleftrightarrow> is_lower c \<or> is_digit c"

text \<open>
  \<^verbatim>\<open>.replace(/[^a-z0-9]+/g, '-')\<close>: scanning from the left, a character of the class
  \<^verbatim>\<open>[a-z0-9]\<close> is kept; at any other character the greedy \<^verbatim>\<open>+\<close> takes all the characters
  up to the next one of the class, the match is replaced by one hyphen, and the scan goes
  on behind it.
\<close>

function replace_other_runs :: "string \<Rightarrow> string" where
  "replace_other_runs [] = []"
| "replace_other_runs (c # cs) =
     (if is_slug_alnum c then c # replace_other_runs cs
      else CHR ''-'' # replace_other_runs (dropWhile (\<lambda>d. \<not> is_slug_alnum d) cs))"
  by pat_completeness auto
termination
  by (relation "measure length") (auto simp: le_imp_less_Suc length_dropWhile_le)

text \<open>
  \<^verbatim>\<open>.replace(/^-|-$/g, '')\<close>: at each position the first alternative matches a hyphen at
  the start of the string and the second a hyphen at its end; a match is removed. The
  flag says whether the scan is at the start.
\<close>

fun remove_edge_hyphens :: "bool \<Rightarrow> string \<Rightarrow> string" where
  "remove_edge_hyphens at_start [] = []"
| "remove_edge_hyphens at_start (c # cs) =
     (if c = CHR ''-'' \<and> (at_start \<or> cs = []) then remove_edge_hyphens False cs
      else c # remove_edge_hyphens False cs)"

definition slugify :: "(string \<Rightarrow> string) \<Rightarrow> string \<Rightarrow> string" where
  "slugify toLowerCase text =
     remove_edge_hyphens True (replace_other_runs (toLowerCase text))"

text \<open>
  The specification's description of \<open>slugify\<close>, word for word: the maximal runs of a
  string under a predicate, each run of characters outside \<^verbatim>\<open>[a-z0-9]\<close> replaced by a
  single hyphen, and all leading and trailing hyphens trimmed.
\<close>

function runs :: "('a \<Rightarrow> bool) \<Rightarrow> 'a list \<Rightarrow> 'a list list" where
  "runs P [] = []"
| "runs P (x # xs) =
     (x # takeWhile (\<lambda>y. P y = P x) xs) # runs P (dropWhile (\<lambda>y. P y = P x) xs)"
  by pat_completeness auto
termination
  by (relation "measure (\<lambda>(P, xs). length xs)")
     (auto simp: le_imp_less_Suc length_dropWhile_le)

definition collapse_run :: "string \<Rightarrow> string" where
  "collapse_run r = (if is_slug_alnum (hd r) then r else ''-'')"

definition trim_hyphens :: "string \<Rightarrow> string" where
  "trim_hyphens s =
     rev (dropWhile (\<lambda>c. c = CHR ''-'') (rev (dropWhile (\<lambda>c. c = CHR ''-'') s)))"

definition slugify_described :: "(string \<Rightarrow> string) \<Rightarrow> string \<Rightarrow> string" where
  "slugify_described toLowerCase text =
     trim_hyphens (concat (map collapse_run (runs is_slug_alnum (toLowerCase text))))"

text \<open>No two hyphens side by side; and the characters a slug is made of.\<close>

fun no_double_hyphen :: "string \<Rightarrow> bool" where
  "no_double_hyphen (c # d # cs) =
     (\<not> (c = CHR ''-'' \<and> d = CHR ''-'') \<and> no_double_hyphen (d # cs))"
| "no_double_hyphen cs = True"

definition slug_alphabet :: string where
  "slug_alphabet = ''abcdefghijklmnopqrstuvwxyz0123456789-''"

text \<open>
  What idempotence asks of the lowercasing: a string of lower-case letters, digits and
  hyphens has nothing to lowercase and is returned as it is.
\<close>

definition keeps_slug_strings :: "(string \<Rightarrow> string) \<Rightarrow> bool" where
  "keeps_slug_strings toLowerCase \<longleftrightarrow>
     (\<forall>s. set s \<subseteq> set slug_alphabet \<longrightarrow> toLowerCase s = s)"

text \<open>
  The lowercasing of ASCII text, which changes the letters \<open>A\<close> to \<open>Z\<close> only: one such
  function, used where a concrete one is needed.
\<close>

definition ascii_to_lower :: "char \<Rightarrow> char" where
  "ascii_to_lower c = (if is_upper c then char_of (of_char c + (32::nat)) else c)"

definition ascii_toLowerCase :: "string \<Rightarrow> string" where
  "ascii_toLowerCase text = map ascii_to_lower text"

subsection \<open>formatUrlWithQuery\<close>

text \<open>
  \<^verbatim>\<open>String.prototype.split(separator, limit)\<close> for a separator of one character: the
  string is cut at every separator, and the first \<open>limit\<close> pieces are returned.
\<close>

fun split_on :: "char \<Rightarrow> string \<Rightarrow> string list" where
  "split_on sep [] = [[]]"
| "split_on sep (c # cs) =
     (if c = sep then [] # split_on sep cs
      else (case split_on sep cs of [] \<Rightarrow> [[c]] | p # ps \<Rightarrow> (c # p) # ps))"

definition split_limit :: "char \<Rightarrow> nat \<Rightarrow> string \<Rightarrow> string list" where
  "split_limit sep n s = take n (split_on sep s)"

text \<open>
  \<^verbatim>\<open>const [base, search] = url.split('?', 2)\<close>: a name with no element to bind is
  \<^verbatim>\<open>undefined\<close>, which \<^verbatim>\<open>base + '?'\<close> would print as a word.
\<close>

definition url_parts :: "string \<Rightarrow> string \<times> string option" where
  "url_parts href =
     (case split_limit CHR ''?'' 2 href of
        [] \<Rightarrow> (''undefined'', None)
      | [base] \<Rightarrow> (base, None)
      | base # search # _ \<Rightarrow> (base, Some search))"

text \<open>
  \<^verbatim>\<open>new URLSearchParams(search)\<close>, a list of name-value pairs, by the URL standard: no
  pairs for \<^verbatim>\<open>undefined\<close>; else one leading \<open>?\<close> is dropped, the string is cut at \<open>&\<close>,
  empty pieces are skipped, each piece is cut at its first \<open>=\<close>, and in both halves \<open>+\<close>
  becomes a space and every \<open>%\<close> followed by two hexadecimal digits the byte they spell.
  The bytes decoded stand for the string they encode; bytes that are not UTF-8, which
  the platform would replace, are kept as they are.
\<close>

definition is_hex_digit :: "char \<Rightarrow> bool" where
  "is_hex_digit c \<longleftrightarrow>
     is_digit c \<or> (CHR ''a'' \<le> c \<and> c \<le> CHR ''f'') \<or> (CHR ''A'' \<le> c \<and> c \<le> CHR ''F'')"

definition hex_value :: "char \<Rightarrow> nat" where
  "hex_value c =
     (if is_digit c then of_char c - 48
      else if CHR ''a'' \<le> c \<and> c \<le> CHR ''f'' then of_char c - 87
      else of_char c - 55)"

fun percent_decode :: "string \<Rightarrow> string" where
  "percent_decode (c # h # l # cs) =
     (if c = CHR ''%'' \<and> is_hex_digit h \<and> is_hex_digit l
      then char_of (16 * hex_value h + hex_value l) # percent_decode cs
      else c # percent_decode (h # l # cs))"
| "percent_decode cs = cs"

definition plus_to_space :: "char \<Rightarrow> char" where
  "plus_to_space c = (if c = CHR ''+'' then CHR '' '' else c)"

definition parse_pair :: "string \<Rightarrow> string \<times> string" where
  "parse_pair bytes =
     (let k = takeWhile (\<lambda>c. c \<noteq> CHR ''='') bytes;
          v = drop (Suc (length k)) bytes
      in (percent_decode (map plus_to_space k), percent_decode (map plus_to_space v)))"

definition urlencoded_parse :: "string \<Rightarrow> (string \<times> string) list" where
  "urlencoded_parse input =
     map parse_pair (filter (\<lambda>bytes. bytes \<noteq> []) (split_on CHR ''&'' input))"

definition URLSearchParams :: "string option \<Rightarrow> (string \<times> string) list" where
  "URLSearchParams init =
     (case init of
        None \<Rightarrow> []
      | Some s \<Rightarrow>
          urlencoded_parse
            (case s of [] \<Rightarrow> [] | c # cs \<Rightarrow> if c = CHR ''?'' then cs else s))"

text \<open>
  \<^verbatim>\<open>searchParams.set(key, value)\<close>: the first pair of that name takes the value and the
  other pairs of that name are removed; with no pair of that name, one is appended.
\<close>

fun set_first ::
  "string \<Rightarrow> string \<Rightarrow> (string \<times> string) list \<Rightarrow> (string \<times> string) list" where
  "set_first k v [] = []"
| "set_first k v (p # ps) =
     (if fst p = k then (k, v) # filter (\<lambda>q. fst q \<noteq> k) ps else p # set_first k v ps)"

definition searchParams_set ::
  "(string \<times> string) list \<Rightarrow> string \<Rightarrow> string \<Rightarrow> (string \<times> string) list" where
  "searchParams_set ps k v =
     (if k \<in> set (map fst ps) then set_first k v ps else ps @ [(k, v)])"

text \<open>
  \<^verbatim>\<open>searchParams.toString()\<close>: every pair as \<open>name=value\<close>, the pairs joined by \<open>&\<close>; in
  names and values a space is written \<open>+\<close>, letters, digits and \<open>* - . _\<close> stay, and any
  other byte is written \<open>%\<close> and two upper-case hexadecimal digits.
\<close>

definition hex_digits :: string where
  "hex_digits = ''0123456789ABCDEF''"

definition urlencoded_byte :: "char \<Rightarrow> string" where
  "urlencoded_byte c =
     (if c = CHR '' '' then ''+''
      else if is_lower c \<or> is_upper c \<or> is_digit c
              \<or> c = CHR ''*'' \<or> c = CHR ''-'' \<or> c = CHR ''.'' \<or> c = CHR ''_'' then [c]
      else [CHR ''%'', hex_digits ! (of_char c div 16), hex_digits ! (of_char c mod 16)])"

fun join :: "string \<Rightarrow> string list \<Rightarrow> string" where
  "join sep [] = []"
| "join sep [x] = x"
| "join sep (x # y # ys) = x @ sep @ join sep (y # ys)"

definition searchParams_toString :: "(string \<times> string) list \<Rightarrow> string" where
  "searchParams_toString ps =
     join ''&''
       (map (\<lambda>(k, v). concat (map urlencoded_byte k) @ ''='' @ concat (map urlencoded_byte v))
          ps)"

text \<open>
  \<^verbatim>\<open>formatUrlWithQuery\<close>: the pairs after the loop
  \<^verbatim>\<open>for (const [key, value] of Object.entries(params)) searchParams.set(key, value)\<close>,
  and the string returned, \<^verbatim>\<open>base + '?' + searchParams.toString()\<close>. The argument
  \<open>params\<close> is the list \<^verbatim>\<open>Object.entries\<close> gives, whose keys are distinct.
\<close>

definition searchParams_after ::
  "string \<Rightarrow> (string \<times> string) list \<Rightarrow> (string \<times> string) list" where
  "searchParams_after href params =
     foldl (\<lambda>searchParams (k, v). searchParams_set searchParams k v)
       (URLSearchParams (snd (url_parts href))) params"

definition formatUrlWithQuery :: "string \<Rightarrow> (string \<times> string) list \<Rightarrow> string" where
  "formatUrlWithQuery href params =
     fst (url_parts href) @ ''?'' @ searchParams_toString (searchParams_after href params)"

text \<open>All the values a name is bound to, in order (\<^verbatim>\<open>searchParams.getAll\<close>).\<close>

definition get_all :: "string \<Rightarrow> (string \<times> string) list \<Rightarrow> string list" where
  "get_all k ps = map snd (filter (\<lambda>p. fst p = k) ps)"

text \<open>
  The split the specification describes: at the first separator only, into what stands
  before it and everything that stands after it.
\<close>

definition split_at_first :: "char \<Rightarrow> string \<Rightarrow> string \<times> string option" where
  "split_at_first sep s =
     (takeWhile (\<lambda>c. c \<noteq> sep) s,
      if sep \<in> set s then Some (tl (dropWhile (\<lambda>c. c \<noteq> sep) s)) else None)"

section \<open>Facts about the loader and the sort\<close>

lemma drain_yielded: "drain g buffer = buffer @ yielded g"
  by (induction g arbitrary: buffer) simp_all

lemma bufferIterable_yielded: "bufferIterable g = yielded g"
  by (simp add: bufferIterable_def drain_yielded)

lemma yielded_loadProjects: "yielded (loadProjects fakes) = fakes"
  by (induction fakes) simp_all

lemma suspensions_loadProjects: "suspensions (loadProjects fakes) = length fakes"
  by (induction fakes) simp_all

lemma suspends_loadProjects: "suspends_before_each_item (loadProjects fakes)"
  by (induction fakes) simp_all

lemma Array_sort_Nil: "Array_sort cmp [] = []"
  by (simp add: Array_sort_def)

lemma Array_sort_Cons: "Array_sort cmp (x # xs) = insert_by cmp x (Array_sort cmp xs)"
  by (simp add: Array_sort_def)

lemma mset_insert_by: "mset (insert_by cmp x ys) = add_mset x (mset ys)"
  by (induction ys) simp_all

lemma mset_Array_sort: "mset (Array_sort cmp xs) = mset xs"
  by (induction xs) (simp_all add: Array_sort_Nil Array_sort_Cons mset_insert_by)

lemma set_insert_by: "set (insert_by cmp x ys) = insert x (set ys)"
  by (induction ys) auto

lemma sorted_insert_by:
  assumes total: "\<And>a b. 0 < cmp a b \<Longrightarrow> cmp b a \<le> 0"
    and trans: "\<And>a b c. cmp a b \<le> 0 \<Longrightarrow> cmp b c \<le> 0 \<Longrightarrow> cmp a c \<le> 0"
    and sorted: "sorted_wrt (\<lambda>a b. cmp a b \<le> 0) ys"
  shows "sorted_wrt (\<lambda>a b. cmp a b \<le> 0) (insert_by cmp x ys)"
  using sorted
proof (induction ys)
  case Nil
  then show ?case by simp
next
  case (Cons y ys)
  show ?case
  proof (cases "cmp x y \<le> 0")
    case True
    have "\<forall>z\<in>set ys. cmp x z \<le> 0"
      using True Cons.prems trans by auto
    with True Cons.prems show ?thesis by simp
  next
    case False
    then have "cmp y x \<le> 0" using total by simp
    with False Cons show ?thesis by (auto simp: set_insert_by)
  qed
qed

lemma sorted_Array_sort:
  assumes "consistent_comparator cmp"
  shows "sorted_wrt (\<lambda>a b. cmp a b \<le> 0) (Array_sort cmp xs)"
proof (induction xs)
  case Nil
  show ?case by (simp add: Array_sort_Nil)
next
  case (Cons x xs)
  have total: "\<And>a b. 0 < cmp a b \<Longrightarrow> cmp b a \<le> 0"
    using assms unfolding consistent_comparator_def by blast
  have trans: "\<And>a b c. cmp a b \<le> 0 \<Longrightarrow> cmp b c \<le> 0 \<Longrightarrow> cmp a c \<le> 0"
    using assms unfolding consistent_comparator_def by blast
  show ?case
    unfolding Array_sort_Cons
    by (rule sorted_insert_by [OF total trans Cons.IH])
qed

text \<open>Insertion never moves an element past one it does not compare greater than.\<close>

lemma filter_insert_by:
  assumes "\<And>y. P x \<Longrightarrow> P y \<Longrightarrow> cmp x y \<le> 0"
  shows "filter P (insert_by cmp x ys) = (if P x then x # filter P ys else filter P ys)"
  using assms by (induction ys) auto

lemma filter_Array_sort:
  assumes "\<And>x y. P x \<Longrightarrow> P y \<Longrightarrow> cmp x y \<le> 0"
  shows "filter P (Array_sort cmp xs) = filter P xs"
proof (induction xs)
  case Nil
  show ?case by (simp add: Array_sort_Nil)
next
  case (Cons x xs)
  have "filter P (insert_by cmp x (Array_sort cmp xs)) =
          (if P x then x # filter P (Array_sort cmp xs) else filter P (Array_sort cmp xs))"
    by (rule filter_insert_by) (rule assms)
  with Cons show ?case by (simp add: Array_sort_Cons)
qed

lemma insert_by_sorted:
  "sorted_wrt (\<lambda>a b. cmp a b \<le> 0) (x # ys) \<Longrightarrow> insert_by cmp x ys = x # ys"
  by (cases ys) simp_all

lemma Array_sort_sorted:
  "sorted_wrt (\<lambda>a b. cmp a b \<le> 0) xs \<Longrightarrow> Array_sort cmp xs = xs"
proof (induction xs)
  case Nil
  show ?case by (simp add: Array_sort_Nil)
next
  case (Cons x xs)
  from Cons.prems have "sorted_wrt (\<lambda>a b. cmp a b \<le> 0) xs" by simp
  then have "Array_sort cmp xs = xs" by (rule Cons.IH)
  with Cons.prems show ?case by (simp add: Array_sort_Cons insert_by_sorted)
qed

text \<open>
  The sorted list does not depend on how it is computed: for a consistent comparator, a
  list that is in order and holds, for every element, the elements that compare equal to
  it in their input order is the list \<open>Array_sort\<close> returns.
\<close>

lemma consistent_refl: "consistent_comparator cmp \<Longrightarrow> cmp a a \<le> 0"
  unfolding consistent_comparator_def by (metis not_le)

lemma stable_sorted_unique:
  assumes cons: "consistent_comparator cmp"
    and "sorted_wrt (\<lambda>a b. cmp a b \<le> 0) ys"
    and "sorted_wrt (\<lambda>a b. cmp a b \<le> 0) zs"
    and "\<And>x. filter (\<lambda>y. cmp x y \<le> 0 \<and> cmp y x \<le> 0) ys
             = filter (\<lambda>y. cmp x y \<le> 0 \<and> cmp y x \<le> 0) zs"
  shows "ys = zs"
  using assms(2-)
proof (induction ys arbitrary: zs)
  case Nil
  have "z \<notin> set zs" for z
  proof
    assume "z \<in> set zs"
    then have "z \<in> set (filter (\<lambda>y. cmp z y \<le> 0 \<and> cmp y z \<le> 0) zs)"
      using consistent_refl [OF cons] by simp
    with Nil.prems(3) [of z] show False by simp
  qed
  then show ?case by (cases zs) auto
next
  case (Cons y ys)
  have refl: "cmp a a \<le> 0" for a by (rule consistent_refl [OF cons])
  have "y \<in> set (filter (\<lambda>u. cmp y u \<le> 0 \<and> cmp u y \<le> 0) (y # ys))"
    using refl by simp
  then have "y \<in> set (filter (\<lambda>u. cmp y u \<le> 0 \<and> cmp u y \<le> 0) zs)"
    unfolding Cons.prems(3) [of y] .
  then have "y \<in> set zs" by simp
  then obtain z zs' where zs: "zs = z # zs'" by (cases zs) auto
  have "z \<in> set (filter (\<lambda>u. cmp z u \<le> 0 \<and> cmp u z \<le> 0) zs)"
    using refl zs by simp
  then have "z \<in> set (filter (\<lambda>u. cmp z u \<le> 0 \<and> cmp u z \<le> 0) (y # ys))"
    unfolding Cons.prems(3) [of z] .
  then have "z \<in> set (y # ys)" by (auto split: if_splits)
  then have yz: "cmp y z \<le> 0"
    using Cons.prems(1) refl by auto
  from \<open>y \<in> set zs\<close> have zy: "cmp z y \<le> 0"
    using Cons.prems(2) refl zs by auto
  from Cons.prems(3) [of y] yz zy refl zs have "y = z" by simp
  have "filter (\<lambda>u. cmp x u \<le> 0 \<and> cmp u x \<le> 0) ys
      = filter (\<lambda>u. cmp x u \<le> 0 \<and> cmp u x \<le> 0) zs'" for x
    using Cons.prems(3) [of x] zs \<open>y = z\<close> by (simp split: if_splits)
  moreover have "sorted_wrt (\<lambda>a b. cmp a b \<le> 0) ys" "sorted_wrt (\<lambda>a b. cmp a b \<le> 0) zs'"
    using Cons.prems(1,2) zs by simp_all
  ultimately have "ys = zs'" by (intro Cons.IH)
  with zs \<open>y = z\<close> show ?case by simp
qed

lemma Array_sort_determined:
  assumes cons: "consistent_comparator cmp"
    and sorted: "sorted_wrt (\<lambda>a b. cmp a b \<le> 0) ys"
    and stable: "\<And>x. filter (\<lambda>y. cmp x y \<le> 0 \<and> cmp y x \<le> 0) ys
             = filter (\<lambda>y. cmp x y \<le> 0 \<and> cmp y x \<le> 0) xs"
  shows "ys = Array_sort cmp xs"
proof (rule stable_sorted_unique [OF cons sorted sorted_Array_sort [OF cons]])
  fix x
  have trans: "cmp a b \<le> 0 \<Longrightarrow> cmp b c \<le> 0 \<Longrightarrow> cmp a c \<le> 0" for a b c
    using cons unfolding consistent_comparator_def by blast
  have "filter (\<lambda>y. cmp x y \<le> 0 \<and> cmp y x \<le> 0) (Array_sort cmp xs)
      = filter (\<lambda>y. cmp x y \<le> 0 \<and> cmp y x \<le> 0) xs"
    by (rule filter_Array_sort) (blast intro: trans)
  with stable [of x]
  show "filter (\<lambda>y. cmp x y \<le> 0 \<and> cmp y x \<le> 0) ys
      = filter (\<lambda>y. cmp x y \<le> 0 \<and> cmp y x \<le> 0) (Array_sort cmp xs)"
    by simp
qed

lemma consistent_by_stars_descending: "consistent_comparator by_stars_descending"
  by (simp add: consistent_comparator_def by_stars_descending_def)

section \<open>Facts about removing undefined values\<close>

lemma deleteUndefined_value_defined:
  "v \<noteq> JUndefined \<Longrightarrow> deleteUndefined_value v \<noteq> JUndefined"
  by (cases v) simp_all

lemma deleteUndefined_value_flat: "\<not> is_object v \<Longrightarrow> deleteUndefined_value v = v"
  by (cases v) simp_all

lemma map_of_deleteUndefined_object_defined:
  "map_of (deleteUndefined_object kvs) k \<noteq> Some JUndefined"
  by (induction kvs) (auto simp: deleteUndefined_object_def deleteUndefined_value_defined)

lemma map_of_deleteUndefined_object_keeps:
  "map_of kvs k = Some v \<Longrightarrow> v \<noteq> JUndefined \<Longrightarrow>
   map_of (deleteUndefined_object kvs) k = Some (deleteUndefined_value v)"
  by (induction kvs) (auto simp: deleteUndefined_object_def split: if_splits)

lemma deleteUndefined_object_optional_entry:
  "deleteUndefined_object (optional_entry k v) = optional_entry k (delete_if_undefined v)"
  by (cases v) (simp_all add: deleteUndefined_object_def)

lemma deleteUndefined_object_append:
  "deleteUndefined_object (xs @ ys) = deleteUndefined_object xs @ deleteUndefined_object ys"
  by (simp add: deleteUndefined_object_def)

lemma entries_deleteUndefined_project:
  "entries (deleteUndefined_project p) = deleteUndefined_object (entries p)"
proof -
  have fixed3: "deleteUndefined_object [(a, JString x), (b, JString y), (c, JBoolean z)]
      = [(a, JString x), (b, JString y), (c, JBoolean z)]" for a b c x y z
    by (simp add: deleteUndefined_object_def)
  have fixed2: "deleteUndefined_object [(a, JNumber x), (b, JNumber y)]
      = [(a, JNumber x), (b, JNumber y)]" for a b x y
    by (simp add: deleteUndefined_object_def)
  have fixed1: "deleteUndefined_object [(a, JString x)] = [(a, JString x)]" for a x
    by (simp add: deleteUndefined_object_def)
  show ?thesis
    unfolding entries_def deleteUndefined_project_def deleteUndefined_object_append
      deleteUndefined_object_optional_entry fixed3 fixed2 fixed1
    by simp
qed

lemma entries_flat: "(k, v) \<in> set (entries p) \<Longrightarrow> \<not> is_object v"
  by (cases "description p"; cases "homepageUrl p"; cases "language p")
     (auto simp: entries_def)

lemma consistent_compare_by_code: "consistent_comparator compare_by_code"
  by (auto simp: consistent_comparator_def compare_by_code_def)

lemma consistent_by_archived_then_name:
  assumes "consistent_comparator localeCompare"
  shows "consistent_comparator (by_archived_then_name localeCompare)"
proof -
  have total: "0 < localeCompare a b \<Longrightarrow> localeCompare b a \<le> 0" for a b
    using assms unfolding consistent_comparator_def by blast
  have trans: "localeCompare a b \<le> 0 \<Longrightarrow> localeCompare b c \<le> 0 \<Longrightarrow> localeCompare a c \<le> 0"
    for a b c
    using assms unfolding consistent_comparator_def by blast
  have "0 < by_archived_then_name localeCompare a b \<Longrightarrow>
        by_archived_then_name localeCompare b a \<le> 0" for a b
    using total [of "name a" "name b"]
    by (auto simp: by_archived_then_name_def split: if_splits)
  moreover have "by_archived_then_name localeCompare a b \<le> 0 \<Longrightarrow>
        by_archived_then_name localeCompare b c \<le> 0 \<Longrightarrow>
        by_archived_then_name localeCompare a c \<le> 0" for a b c
    using trans [of "name a" "name b" "name c"]
    by (auto simp: by_archived_then_name_def split: if_splits)
  ultimately show ?thesis
    unfolding consistent_comparator_def by blast
qed

lemma getStaticProps_showcase_eq:
  "getStaticProps_showcase localeCompare fakes =
     Array_sort (by_archived_then_name localeCompare) (deleteUndefined fakes)"
  by (simp add: getStaticProps_showcase_def bufferIterable_yielded yielded_loadProjects)

lemma deleteUndefined_example_project:
  "deleteUndefined_project (example_project n a s) = example_project n a s"
  by (simp add: deleteUndefined_project_def example_project_def)

section \<open>The loader yields the fixture\<close>

text \<open>
  C4. The sequence \<open>loadProjects\<close> produces hands over exactly the records of the
  fixture list, all of them and in the fixture's order; it is finite, with one
  suspension for each item, placed right before the item. The sequence is a function of
  the fixture alone, so every call starts a pass of its own from the first record.
\<close>

theorem loadProjects_yields_fixture:
  "yielded (loadProjects fakes) = fakes
   \<and> suspends_before_each_item (loadProjects fakes)
   \<and> suspensions (loadProjects fakes) = length fakes"
  by (simp add: yielded_loadProjects suspends_loadProjects suspensions_loadProjects)

section \<open>No undefined value is left\<close>

text \<open>
  C3. For every list of projects, after \<open>deleteUndefined\<close> the list has the same
  length, no project of it has a key bound to \<open>undefined\<close>, and every key that was bound
  to a defined value (\<open>0\<close>, \<open>false\<close> and the empty string among them) is still bound to
  that value. On the objects themselves the operation is the removal of the keys bound
  to \<open>undefined\<close>.
\<close>

theorem deleteUndefined_removes_exactly_undefined:
  "length (deleteUndefined L) = length L
   \<and> map entries (deleteUndefined L) = deleteUndefined_objects (map entries L)
   \<and> (\<forall>i k. i < length L \<longrightarrow> map_of (entries (deleteUndefined L ! i)) k \<noteq> Some JUndefined)
   \<and> (\<forall>i k v. i < length L \<and> map_of (entries (L ! i)) k = Some v \<and> v \<noteq> JUndefined
        \<longrightarrow> map_of (entries (deleteUndefined L ! i)) k = Some v)"
proof -
  have keeps: "map_of (entries (deleteUndefined_project p)) k = Some v"
    if "map_of (entries p) k = Some v" "v \<noteq> JUndefined" for p k v
  proof -
    from that(1) have "(k, v) \<in> set (entries p)" by (rule map_of_SomeD)
    then have "deleteUndefined_value v = v"
      by (simp add: entries_flat deleteUndefined_value_flat)
    with that show ?thesis
      by (simp add: entries_deleteUndefined_project map_of_deleteUndefined_object_keeps)
  qed
  have objects: "map entries (deleteUndefined L) = deleteUndefined_objects (map entries L)"
    by (simp add: deleteUndefined_def deleteUndefined_objects_def
        entries_deleteUndefined_project)
  have none: "map_of (entries (deleteUndefined L ! i)) k \<noteq> Some JUndefined"
    if "i < length L" for i k
    using that
    by (simp add: deleteUndefined_def entries_deleteUndefined_project
        map_of_deleteUndefined_object_defined)
  have kept: "map_of (entries (deleteUndefined L ! i)) k = Some v"
    if "i < length L" "map_of (entries (L ! i)) k = Some v" "v \<noteq> JUndefined" for i k v
    using that by (simp add: deleteUndefined_def keeps)
  have "length (deleteUndefined L) = length L"
    by (simp add: deleteUndefined_def)
  with objects none kept show ?thesis by blast
qed

text \<open>
  The same at a project whose \<open>description\<close> is bound to \<open>undefined\<close> and whose name,
  flag and counts are the empty string, \<open>false\<close> and \<open>0\<close>.
\<close>

theorem deleteUndefined_removes_exactly_undefined_witness:
  "map_of (entries ((example_project [] False 0)\<lparr>description := Undefined\<rparr>))
      ''description'' = Some JUndefined
   \<and> map_of (entries (deleteUndefined
        [(example_project [] False 0)\<lparr>description := Undefined\<rparr>] ! 0)) ''description'' = None
   \<and> map_of (entries (deleteUndefined
        [(example_project [] False 0)\<lparr>description := Undefined\<rparr>] ! 0)) ''name''
      = Some (JString [])
   \<and> map_of (entries (deleteUndefined
        [(example_project [] False 0)\<lparr>description := Undefined\<rparr>] ! 0)) ''archived''
      = Some (JBoolean False)
   \<and> map_of (entries (deleteUndefined
        [(example_project [] False 0)\<lparr>description := Undefined\<rparr>] ! 0)) ''stars''
      = Some (JNumber 0)"
  using deleteUndefined_removes_exactly_undefined
    [of "[(example_project [] False 0)\<lparr>description := Undefined\<rparr>]"]
  by (simp add: entries_def example_project_def deleteUndefined_def
      deleteUndefined_project_def)

section \<open>The ranked page\<close>

lemma getStaticProps_ranked_eq:
  "getStaticProps_ranked fakes = Array_sort by_stars_descending (deleteUndefined fakes)"
  by (simp add: getStaticProps_ranked_def bufferIterable_yielded yielded_loadProjects)

text \<open>
  C2. The sort of the ranked page puts every list of projects in descending order of
  \<open>stars\<close>, keeps its elements, and is stable: the projects of any one star count come
  out in the order they went in. The page sorts the buffered and cleaned fixture with it;
  for the fixture \<open>B\<close> (1 star), \<open>A\<close> (5), \<open>C\<close> (3) the page's list is \<open>A, C, B\<close>.
\<close>

theorem ranked_sort_descending_stable:
  "sorted_wrt (\<lambda>a b. stars a \<ge> stars b) (Array_sort by_stars_descending L)
   \<and> mset (Array_sort by_stars_descending L) = mset L
   \<and> (\<forall>k. filter (\<lambda>p. stars p = k) (Array_sort by_stars_descending L)
          = filter (\<lambda>p. stars p = k) L)
   \<and> getStaticProps_ranked fakes = Array_sort by_stars_descending (deleteUndefined fakes)
   \<and> getStaticProps_ranked
         [example_project ''B'' False 1, example_project ''A'' True 5,
          example_project ''C'' False 3]
       = [example_project ''A'' True 5, example_project ''C'' False 3,
          example_project ''B'' False 1]"
proof -
  have "sorted_wrt (\<lambda>a b. by_stars_descending a b \<le> 0) (Array_sort by_stars_descending L)"
    by (rule sorted_Array_sort [OF consistent_by_stars_descending])
  then have ordered: "sorted_wrt (\<lambda>a b. stars a \<ge> stars b) (Array_sort by_stars_descending L)"
    by (simp add: by_stars_descending_def)
  have stable: "filter (\<lambda>p. stars p = k) (Array_sort by_stars_descending L)
          = filter (\<lambda>p. stars p = k) L" for k
    by (rule filter_Array_sort) (simp add: by_stars_descending_def)
  have "deleteUndefined
           [example_project ''B'' False 1, example_project ''A'' True 5,
            example_project ''C'' False 3]
         = [example_project ''B'' False 1, example_project ''A'' True 5,
            example_project ''C'' False 3]"
    by (simp add: deleteUndefined_def deleteUndefined_example_project)
  then have example: "getStaticProps_ranked
         [example_project ''B'' False 1, example_project ''A'' True 5,
          example_project ''C'' False 3]
       = [example_project ''A'' True 5, example_project ''C'' False 3,
          example_project ''B'' False 1]"
    by (simp add: getStaticProps_ranked_eq Array_sort_def by_stars_descending_def
        example_project_def)
  from ordered stable example show ?thesis
    by (simp add: mset_Array_sort getStaticProps_ranked_eq)
qed

section \<open>The showcase page\<close>

text \<open>
  C1. For a consistent collation, the sort of the showcase page keeps the elements of
  the list, puts every maintained project before every archived one, and orders the
  projects of each of the two kinds by name under the collation. The page sorts the
  buffered and cleaned fixture with it; for the fixture \<open>B\<close> (maintained), \<open>A\<close>
  (archived), \<open>C\<close> (maintained) the page's list is \<open>B, C, A\<close>.
\<close>

theorem showcase_sort_partitions_then_names:
  assumes "consistent_comparator localeCompare"
  shows "mset (Array_sort (by_archived_then_name localeCompare) L) = mset L
    \<and> (\<forall>i j. i < j \<and> j < length L
          \<and> archived (Array_sort (by_archived_then_name localeCompare) L ! i)
        \<longrightarrow> archived (Array_sort (by_archived_then_name localeCompare) L ! j))
    \<and> (\<forall>i j. i < j \<and> j < length L
          \<and> archived (Array_sort (by_archived_then_name localeCompare) L ! i)
            = archived (Array_sort (by_archived_then_name localeCompare) L ! j)
        \<longrightarrow> localeCompare (name (Array_sort (by_archived_then_name localeCompare) L ! i))
                           (name (Array_sort (by_archived_then_name localeCompare) L ! j)) \<le> 0)
    \<and> getStaticProps_showcase localeCompare fakes
        = Array_sort (by_archived_then_name localeCompare) (deleteUndefined fakes)
    \<and> (localeCompare ''B'' ''C'' \<le> 0 \<longrightarrow>
         getStaticProps_showcase localeCompare
           [example_project ''B'' False 1, example_project ''A'' True 5,
            example_project ''C'' False 3]
         = [example_project ''B'' False 1, example_project ''C'' False 3,
            example_project ''A'' True 5])"
proof -
  let ?cmp = "by_archived_then_name localeCompare"
  let ?out = "Array_sort ?cmp L"
  have len: "length ?out = length L"
    using mset_Array_sort [of ?cmp L] by (rule mset_eq_length)
  have "sorted_wrt (\<lambda>a b. ?cmp a b \<le> 0) ?out"
    by (rule sorted_Array_sort [OF consistent_by_archived_then_name [OF assms]])
  then have nth: "?cmp (?out ! i) (?out ! j) \<le> 0" if "i < j" "j < length L" for i j
    using that len by (simp add: sorted_wrt_iff_nth_less)
  have part: "archived (?out ! j)" if "i < j" "j < length L" "archived (?out ! i)" for i j
    using nth [OF that(1,2)] that(3)
    by (auto simp: by_archived_then_name_def split: if_splits)
  have names: "localeCompare (name (?out ! i)) (name (?out ! j)) \<le> 0"
    if "i < j" "j < length L" "archived (?out ! i) = archived (?out ! j)" for i j
    using nth [OF that(1,2)] that(3)
    by (auto simp: by_archived_then_name_def split: if_splits)
  have example: "getStaticProps_showcase localeCompare
           [example_project ''B'' False 1, example_project ''A'' True 5,
            example_project ''C'' False 3]
         = [example_project ''B'' False 1, example_project ''C'' False 3,
            example_project ''A'' True 5]" if "localeCompare ''B'' ''C'' \<le> 0"
  proof -
    have "deleteUndefined
           [example_project ''B'' False 1, example_project ''A'' True 5,
            example_project ''C'' False 3]
         = [example_project ''B'' False 1, example_project ''A'' True 5,
            example_project ''C'' False 3]"
      by (simp add: deleteUndefined_def deleteUndefined_example_project)
    with that show ?thesis
      by (simp add: getStaticProps_showcase_eq Array_sort_def by_archived_then_name_def
          example_project_def)
  qed
  show ?thesis
    using part names example
    by (simp add: mset_Array_sort getStaticProps_showcase_eq) blast
qed

text \<open>The same with strings compared by character code, on the example's fixture.\<close>

theorem showcase_sort_partitions_then_names_witness:
  "consistent_comparator compare_by_code
   \<and> compare_by_code ''B'' ''C'' \<le> 0
   \<and> getStaticProps_showcase compare_by_code
       [example_project ''B'' False 1, example_project ''A'' True 5,
        example_project ''C'' False 3]
     = [example_project ''B'' False 1, example_project ''C'' False 3,
        example_project ''A'' True 5]"
proof -
  have le: "compare_by_code ''B'' ''C'' \<le> 0"
    by (simp add: compare_by_code_def)
  show ?thesis
    using showcase_sort_partitions_then_names [OF consistent_compare_by_code, of "[]" "[]"] le
    by (simp add: consistent_compare_by_code)
qed

text \<open>
  C8. A list that is already in showcase order (no archived project before a maintained
  one, names ascending within each kind) comes out of the showcase sort as it went in.
\<close>

theorem showcase_sort_idempotent:
  assumes "showcase_ordered localeCompare L"
  shows "Array_sort (by_archived_then_name localeCompare) L = L"
proof -
  have "sorted_wrt (\<lambda>a b. by_archived_then_name localeCompare a b \<le> 0) L"
    using assms unfolding showcase_ordered_def
    by (rule sorted_wrt_mono_rel [rotated]) (auto simp: by_archived_then_name_def)
  then show ?thesis by (rule Array_sort_sorted)
qed

theorem showcase_sort_idempotent_witness:
  "showcase_ordered compare_by_code
     [example_project ''B'' False 1, example_project ''C'' False 3,
      example_project ''A'' True 5]
   \<and> Array_sort (by_archived_then_name compare_by_code)
       [example_project ''B'' False 1, example_project ''C'' False 3,
        example_project ''A'' True 5]
     = [example_project ''B'' False 1, example_project ''C'' False 3,
        example_project ''A'' True 5]"
proof -
  have ordered: "showcase_ordered compare_by_code
     [example_project ''B'' False 1, example_project ''C'' False 3,
      example_project ''A'' True 5]"
    by (simp add: showcase_ordered_def example_project_def compare_by_code_def)
  show ?thesis
    using ordered showcase_sort_idempotent [OF ordered] by simp
qed

section \<open>Facts about the string utilities\<close>

lemma is_lower_set: "is_lower c \<longleftrightarrow> c \<in> set ''abcdefghijklmnopqrstuvwxyz''"
  unfolding is_lower_def
  apply (cases c)
  subgoal for x1 x2 x3 x4 x5 x6 x7 x8
    by (cases x1; cases x2; cases x3; cases x4; cases x5; cases x6; cases x7; cases x8; simp)
  done

lemma is_upper_set: "is_upper c \<longleftrightarrow> c \<in> set ''ABCDEFGHIJKLMNOPQRSTUVWXYZ''"
  unfolding is_upper_def
  apply (cases c)
  subgoal for x1 x2 x3 x4 x5 x6 x7 x8
    by (cases x1; cases x2; cases x3; cases x4; cases x5; cases x6; cases x7; cases x8; simp)
  done

lemma is_digit_set: "is_digit c \<longleftrightarrow> c \<in> set ''0123456789''"
  unfolding is_digit_def
  apply (cases c)
  subgoal for x1 x2 x3 x4 x5 x6 x7 x8
    by (cases x1; cases x2; cases x3; cases x4; cases x5; cases x6; cases x7; cases x8; simp)
  done

lemma letter_set: "is_lower c \<or> is_upper c \<longleftrightarrow> c \<in> set ascii_letters"
  unfolding is_lower_set is_upper_set ascii_letters_def by auto

lemma scheme_char_set: "scheme_char c \<longleftrightarrow> c \<in> set scheme_alphabet"
  unfolding scheme_char_def is_lower_set is_upper_set is_digit_set ascii_letters_def
    scheme_alphabet_def by auto

lemma scheme_rest_then_colon_iff:
  "scheme_rest_then_colon s \<longleftrightarrow>
     (\<exists>cs rest. s = cs @ CHR '':'' # rest \<and> (\<forall>c\<in>set cs. scheme_char c))"
proof (induction s)
  case Nil
  show ?case by simp
next
  case (Cons d s)
  show ?case
  proof
    assume "scheme_rest_then_colon (d # s)"
    then consider "scheme_char d" "scheme_rest_then_colon s" | "d = CHR '':''" by auto
    then show "\<exists>cs rest. d # s = cs @ CHR '':'' # rest \<and> (\<forall>c\<in>set cs. scheme_char c)"
    proof cases
      case 1
      with Cons.IH obtain cs rest where "s = cs @ CHR '':'' # rest" "\<forall>c\<in>set cs. scheme_char c"
        by blast
      with 1 have "d # s = (d # cs) @ CHR '':'' # rest \<and> (\<forall>c\<in>set (d # cs). scheme_char c)"
        by simp
      then show ?thesis by blast
    next
      case 2
      then have "d # s = [] @ CHR '':'' # s \<and> (\<forall>c\<in>set []. scheme_char c)" by simp
      then show ?thesis by blast
    qed
  next
    assume "\<exists>cs rest. d # s = cs @ CHR '':'' # rest \<and> (\<forall>c\<in>set cs. scheme_char c)"
    then obtain cs rest where eq: "d # s = cs @ CHR '':'' # rest" and all: "\<forall>c\<in>set cs. scheme_char c"
      by blast
    show "scheme_rest_then_colon (d # s)"
    proof (cases cs)
      case Nil
      with eq show ?thesis by simp
    next
      case (Cons e es)
      with eq all have "d = e" "s = es @ CHR '':'' # rest" "scheme_char d" "\<forall>c\<in>set es. scheme_char c"
        by simp_all
      with Cons.IH show ?thesis by auto
    qed
  qed
qed

text \<open>
  C7. \<open>isAbsoluteUrl\<close> is true exactly of the strings that begin with a scheme: a letter
  of either case, then any number of letters, digits and \<open>+ - .\<close>, then a colon. It is
  true of \<open>https://example.com\<close> and false of \<open>/projects\<close>.
\<close>

theorem isAbsoluteUrl_iff_scheme:
  "(isAbsoluteUrl href \<longleftrightarrow>
      (\<exists>c cs rest. href = c # cs @ CHR '':'' # rest \<and> c \<in> set ascii_letters
          \<and> set cs \<subseteq> set scheme_alphabet))
   \<and> isAbsoluteUrl ''https://example.com''
   \<and> \<not> isAbsoluteUrl ''/projects''"
proof -
  have "isAbsoluteUrl href \<longleftrightarrow>
      (\<exists>c cs rest. href = c # cs @ CHR '':'' # rest \<and> c \<in> set ascii_letters
          \<and> set cs \<subseteq> set scheme_alphabet)"
  proof (cases href)
    case Nil
    then show ?thesis by (simp add: isAbsoluteUrl_def)
  next
    case (Cons d s)
    have "isAbsoluteUrl (d # s) \<longleftrightarrow>
        d \<in> set ascii_letters \<and> (\<exists>cs rest. s = cs @ CHR '':'' # rest \<and> (\<forall>c\<in>set cs. scheme_char c))"
      by (simp add: isAbsoluteUrl_def letter_set scheme_rest_then_colon_iff)
    also have "\<dots> \<longleftrightarrow> (\<exists>c cs rest. d # s = c # cs @ CHR '':'' # rest \<and> c \<in> set ascii_letters
          \<and> set cs \<subseteq> set scheme_alphabet)"
      unfolding scheme_char_set by (auto simp: subset_iff)
    finally show ?thesis using Cons by simp
  qed
  moreover have "isAbsoluteUrl ''https://example.com''"
    by (simp add: isAbsoluteUrl_def is_lower_def is_upper_def is_digit_def scheme_char_def)
  moreover have "\<not> isAbsoluteUrl ''/projects''"
    by (simp add: isAbsoluteUrl_def is_lower_def is_upper_def)
  ultimately show ?thesis by blast
qed

lemma split_on_not_Nil: "split_on sep s \<noteq> []"
  by (induction s) (auto split: list.splits)

lemma split_on_no_sep: "sep \<notin> set a \<Longrightarrow> split_on sep a = [a]"
  by (induction a) auto

lemma split_on_append_sep:
  "sep \<notin> set a \<Longrightarrow> split_on sep (a @ sep # r) = a # split_on sep r"
  by (induction a) auto

lemma hd_split_on: "hd (split_on sep s) = takeWhile (\<lambda>c. c \<noteq> sep) s"
  by (induction s) (auto split: list.splits simp: split_on_not_Nil)

lemma takeWhile_no_sep: "sep \<notin> set a \<Longrightarrow> takeWhile (\<lambda>c. c \<noteq> sep) a = a"
  by (induction a) auto

lemma takeWhile_sep: "sep \<notin> set a \<Longrightarrow> takeWhile (\<lambda>c. c \<noteq> sep) (a @ sep # r) = a"
  by (induction a) auto

lemma dropWhile_sep:
  "sep \<notin> set a \<Longrightarrow> dropWhile (\<lambda>c. c \<noteq> sep) (a @ sep # r) = sep # r"
  by (induction a) auto

lemma url_parts_no_query: "CHR ''?'' \<notin> set href \<Longrightarrow> url_parts href = (href, None)"
  by (simp add: url_parts_def split_limit_def split_on_no_sep)

lemma url_parts_query:
  assumes "CHR ''?'' \<notin> set a"
  shows "url_parts (a @ CHR ''?'' # r) = (a, Some (takeWhile (\<lambda>c. c \<noteq> CHR ''?'') r))"
proof -
  obtain p ps where ps: "split_on CHR ''?'' r = p # ps"
    using split_on_not_Nil [of "CHR ''?''" r] by (cases "split_on CHR ''?'' r") auto
  then have "p = takeWhile (\<lambda>c. c \<noteq> CHR ''?'') r"
    using hd_split_on [of "CHR ''?''" r] by simp
  with ps assms show ?thesis
    by (simp add: url_parts_def split_limit_def split_on_append_sep)
qed

lemma url_parts_general:
  "url_parts href =
     (takeWhile (\<lambda>c. c \<noteq> CHR ''?'') href,
      if CHR ''?'' \<in> set href
      then Some (takeWhile (\<lambda>c. c \<noteq> CHR ''?'') (tl (dropWhile (\<lambda>c. c \<noteq> CHR ''?'') href)))
      else None)"
proof (cases "CHR ''?'' \<in> set href")
  case False
  then show ?thesis by (simp add: url_parts_no_query takeWhile_no_sep)
next
  case True
  then obtain a r where href: "href = a @ CHR ''?'' # r" and a: "CHR ''?'' \<notin> set a"
    by (auto dest: split_list_first)
  from a have "takeWhile (\<lambda>c. c \<noteq> CHR ''?'') (a @ CHR ''?'' # r) = a"
    by (rule takeWhile_sep)
  moreover from a have "dropWhile (\<lambda>c. c \<noteq> CHR ''?'') (a @ CHR ''?'' # r) = CHR ''?'' # r"
    by (rule dropWhile_sep)
  ultimately show ?thesis
    using True href a by (simp add: url_parts_query)
qed

lemma get_all_set_first_same:
  "k \<in> set (map fst ps) \<Longrightarrow> get_all k (set_first k v ps) = [v]"
  by (induction ps) (auto simp: get_all_def filter_empty_conv)

lemma get_all_set_first_other:
  "k' \<noteq> k \<Longrightarrow> get_all k' (set_first k v ps) = get_all k' ps"
proof (induction ps)
  case Nil
  then show ?case by simp
next
  case (Cons p ps)
  have "filter (\<lambda>p. fst p = k') (filter (\<lambda>q. fst q \<noteq> k) ps) = filter (\<lambda>p. fst p = k') ps"
    using Cons.prems by (auto intro: filter_cong)
  with Cons show ?case by (auto simp: get_all_def)
qed

lemma get_all_set_same: "get_all k (searchParams_set ps k v) = [v]"
proof (cases "k \<in> set (map fst ps)")
  case True
  then show ?thesis by (simp add: searchParams_set_def get_all_set_first_same)
next
  case False
  then have "filter (\<lambda>p. fst p = k) ps = []"
    by (auto simp: filter_empty_conv)
  with False show ?thesis by (simp add: searchParams_set_def get_all_def)
qed

lemma get_all_set_other:
  "k' \<noteq> k \<Longrightarrow> get_all k' (searchParams_set ps k v) = get_all k' ps"
  by (simp add: searchParams_set_def get_all_set_first_other) (simp add: get_all_def)

lemma get_all_foldl_other:
  "k \<notin> fst ` set params \<Longrightarrow>
   get_all k (foldl (\<lambda>sp (k, v). searchParams_set sp k v) ps params) = get_all k ps"
  by (induction params arbitrary: ps) (auto simp: get_all_set_other)

lemma get_all_foldl_same:
  "distinct (map fst params) \<Longrightarrow> (k, v) \<in> set params \<Longrightarrow>
   get_all k (foldl (\<lambda>sp (k, v). searchParams_set sp k v) ps params) = [v]"
proof (induction params arbitrary: ps)
  case Nil
  then show ?case by simp
next
  case (Cons p params)
  show ?case
  proof (cases "p = (k, v)")
    case True
    with Cons.prems have "k \<notin> fst ` set params" by auto
    then show ?thesis
      using True by (simp add: get_all_foldl_other get_all_set_same)
  next
    case False
    with Cons show ?thesis by auto
  qed
qed

text \<open>
  What \<open>formatUrlWithQuery\<close> does on every string. The base is the text before the
  first \<open>?\<close>; the existing query is the text between the first \<open>?\<close> and the second (or
  the end of the string when there is no second), and there is none when the string has
  no \<open>?\<close>. After the call every key of \<open>params\<close> is bound to its value from \<open>params\<close>
  and to nothing else, every other key is bound to what the existing query bound it to,
  and the result is the base, a \<open>?\<close> and the serialised pairs. \<open>/search?q=a&x=1\<close> with
  \<open>q\<close> set to \<open>b\<close> gives \<open>/search?q=b&x=1\<close>.
\<close>

lemma formatUrlWithQuery_sets_params:
  assumes "distinct (map fst params)"
  shows "formatUrlWithQuery href params
           = fst (url_parts href) @ ''?'' @ searchParams_toString (searchParams_after href params)
    \<and> fst (url_parts href) = takeWhile (\<lambda>c. c \<noteq> CHR ''?'') href
    \<and> snd (url_parts href) =
        (if CHR ''?'' \<in> set href
         then Some (takeWhile (\<lambda>c. c \<noteq> CHR ''?'') (tl (dropWhile (\<lambda>c. c \<noteq> CHR ''?'') href)))
         else None)
    \<and> (\<forall>k v. (k, v) \<in> set params \<longrightarrow> get_all k (searchParams_after href params) = [v])
    \<and> (\<forall>k. k \<notin> fst ` set params \<longrightarrow>
          get_all k (searchParams_after href params)
            = get_all k (URLSearchParams (snd (url_parts href))))
    \<and> formatUrlWithQuery ''/search?q=a&x=1'' [(''q'', ''b'')] = ''/search?q=b&x=1''"
proof -
  have "formatUrlWithQuery ''/search?q=a&x=1'' [(''q'', ''b'')] = ''/search?q=b&x=1''"
    by code_simp
  then show ?thesis
    using assms
    by (simp add: formatUrlWithQuery_def url_parts_general searchParams_after_def
        get_all_foldl_other get_all_foldl_same)
qed

lemma formatUrlWithQuery_sets_params_example:
  "distinct (map fst [(''q'', ''b'')])
   \<and> formatUrlWithQuery ''/search?q=a&x=1'' [(''q'', ''b'')] = ''/search?q=b&x=1''
   \<and> get_all ''q'' (searchParams_after ''/search?q=a&x=1'' [(''q'', ''b'')]) = [''b'']
   \<and> get_all ''x'' (searchParams_after ''/search?q=a&x=1'' [(''q'', ''b'')]) = [''1'']"
proof -
  have d: "distinct (map fst [(''q'', ''b'')])" by simp
  have x: "get_all ''x'' (URLSearchParams (snd (url_parts ''/search?q=a&x=1''))) = [''1'']"
    by code_simp
  note t = formatUrlWithQuery_sets_params [OF d, of "''/search?q=a&x=1''"]
  from t have r: "formatUrlWithQuery ''/search?q=a&x=1'' [(''q'', ''b'')] = ''/search?q=b&x=1''"
    by blast
  from t have "\<forall>k v. (k, v) \<in> set [(''q'', ''b'')] \<longrightarrow>
      get_all k (searchParams_after ''/search?q=a&x=1'' [(''q'', ''b'')]) = [v]"
    by blast
  then have q: "get_all ''q'' (searchParams_after ''/search?q=a&x=1'' [(''q'', ''b'')]) = [''b'']"
    by simp
  from t have "\<forall>k. k \<notin> fst ` set [(''q'', ''b'')] \<longrightarrow>
      get_all k (searchParams_after ''/search?q=a&x=1'' [(''q'', ''b'')])
        = get_all k (URLSearchParams (snd (url_parts ''/search?q=a&x=1'')))"
    by blast
  then have "get_all ''x'' (searchParams_after ''/search?q=a&x=1'' [(''q'', ''b'')])
        = get_all ''x'' (URLSearchParams (snd (url_parts ''/search?q=a&x=1'')))"
    by simp
  with x have "get_all ''x'' (searchParams_after ''/search?q=a&x=1'' [(''q'', ''b'')]) = [''1'']"
    by simp
  with d r q show ?thesis by blast
qed

text \<open>
  With at most one \<open>?\<close> in the string, the two pieces the function takes are the
  pieces of the split at the first \<open>?\<close>.
\<close>

lemma url_parts_single_query:
  assumes "length (filter (\<lambda>c. c = CHR ''?'') href) \<le> 1"
  shows "url_parts href = split_at_first CHR ''?'' href"
proof (cases "CHR ''?'' \<in> set href")
  case False
  then show ?thesis
    by (simp add: url_parts_no_query split_at_first_def takeWhile_no_sep)
next
  case True
  then obtain a r where href: "href = a @ CHR ''?'' # r" and a: "CHR ''?'' \<notin> set a"
    by (auto dest: split_list_first)
  from assms href have "filter (\<lambda>c. c = CHR ''?'') r = []" by simp
  then have r: "CHR ''?'' \<notin> set r" by (auto simp: filter_empty_conv)
  have "url_parts href = (a, Some r)"
    using a r href by (simp add: url_parts_query takeWhile_no_sep)
  moreover have "split_at_first CHR ''?'' href = (a, Some r)"
    using a href by (simp add: split_at_first_def takeWhile_sep dropWhile_sep)
  ultimately show ?thesis by simp
qed

text \<open>
  C5. The function does not split the string at its first \<open>?\<close> when there is a second
  one. Split at its first \<open>?\<close>, \<open>/login?next=/home?tab=2\<close> has the query
  \<open>next=/home?tab=2\<close>, which binds \<open>next\<close> to \<open>/home?tab=2\<close>. The function takes
  \<open>next=/home\<close> for the query; with \<open>lang\<close> set to \<open>en\<close> it returns
  \<open>/login?next=%2Fhome&lang=en\<close>, in which \<open>next\<close>, a key that is not among the
  parameters, is bound to \<open>/home\<close>.
\<close>

theorem formatUrlWithQuery_loses_text_after_second_question_mark:
  "split_at_first CHR ''?'' ''/login?next=/home?tab=2'' = (''/login'', Some ''next=/home?tab=2'')
   \<and> get_all ''next''
         (URLSearchParams (snd (split_at_first CHR ''?'' ''/login?next=/home?tab=2'')))
       = [''/home?tab=2'']
   \<and> url_parts ''/login?next=/home?tab=2'' = (''/login'', Some ''next=/home'')
   \<and> get_all ''next'' (searchParams_after ''/login?next=/home?tab=2'' [(''lang'', ''en'')])
       = [''/home'']
   \<and> formatUrlWithQuery ''/login?next=/home?tab=2'' [(''lang'', ''en'')]
       = ''/login?next=%2Fhome&lang=en''"
  by code_simp

text \<open>
  C9. Of a string with two or more \<open>?\<close>, only the text between the first and the second
  is the existing query: what follows the second \<open>?\<close> has no part in the result, which is
  the result for the string cut off before its second \<open>?\<close>.
\<close>

theorem formatUrlWithQuery_second_question_mark:
  assumes "CHR ''?'' \<notin> set a" and "CHR ''?'' \<notin> set b"
  shows "url_parts (a @ ''?'' @ b @ ''?'' @ c) = (a, Some b)
    \<and> formatUrlWithQuery (a @ ''?'' @ b @ ''?'' @ c) params
        = formatUrlWithQuery (a @ ''?'' @ b) params"
proof -
  from assms(2) have "takeWhile (\<lambda>c. c \<noteq> CHR ''?'') (b @ CHR ''?'' # c) = b"
    by (rule takeWhile_sep)
  then have long: "url_parts (a @ ''?'' @ b @ ''?'' @ c) = (a, Some b)"
    using assms(1) by (simp add: url_parts_query)
  from assms(2) have "takeWhile (\<lambda>c. c \<noteq> CHR ''?'') b = b"
    by (rule takeWhile_no_sep)
  then have short: "url_parts (a @ ''?'' @ b) = (a, Some b)"
    using assms(1) by (simp add: url_parts_query)
  from long short show ?thesis
    by (simp add: formatUrlWithQuery_def searchParams_after_def)
qed

theorem formatUrlWithQuery_second_question_mark_witness:
  "CHR ''?'' \<notin> set ''/docs'' \<and> CHR ''?'' \<notin> set ''page=2''
   \<and> url_parts ''/docs?page=2?draft=1'' = (''/docs'', Some ''page=2'')
   \<and> formatUrlWithQuery ''/docs?page=2?draft=1'' [(''page'', ''3'')]
       = formatUrlWithQuery ''/docs?page=2'' [(''page'', ''3'')]"
proof -
  have a: "CHR ''?'' \<notin> set ''/docs''" by simp
  have b: "CHR ''?'' \<notin> set ''page=2''" by simp
  show ?thesis
    using formatUrlWithQuery_second_question_mark [OF a b, of "''draft=1''" "[(''page'', ''3'')]"]
    by simp
qed

lemma hyphen_not_alnum: "\<not> is_slug_alnum CHR ''-''"
  by (simp add: is_slug_alnum_def is_lower_def is_digit_def)

lemma alnum_not_upper: "is_slug_alnum c \<Longrightarrow> \<not> is_upper c"
  unfolding is_slug_alnum_def is_lower_set is_digit_set is_upper_set by auto

lemma hyphen_not_upper: "\<not> is_upper CHR ''-''"
  by (simp add: is_upper_def)

lemma slug_alphabet_iff: "c \<in> set slug_alphabet \<longleftrightarrow> is_slug_alnum c \<or> c = CHR ''-''"
  unfolding is_slug_alnum_def is_lower_set is_digit_set slug_alphabet_def by auto

lemma concat_runs: "concat (runs P s) = s"
  by (induction P s rule: runs.induct) simp_all

lemma described_split:
  "concat (map collapse_run (runs is_slug_alnum s))
     = takeWhile is_slug_alnum s
       @ concat (map collapse_run (runs is_slug_alnum (dropWhile is_slug_alnum s)))"
proof (cases s)
  case Nil
  then show ?thesis by simp
next
  case (Cons d ds)
  then show ?thesis by (cases "is_slug_alnum d") (simp_all add: collapse_run_def)
qed

lemma replace_other_runs_described:
  "replace_other_runs s = concat (map collapse_run (runs is_slug_alnum s))"
proof (induction s rule: replace_other_runs.induct)
  case 1
  show ?case by simp
next
  case (2 c cs)
  show ?case
  proof (cases "is_slug_alnum c")
    case True
    with 2 have "replace_other_runs (c # cs) = c # concat (map collapse_run (runs is_slug_alnum cs))"
      by simp
    also have "\<dots> = c # takeWhile is_slug_alnum cs
        @ concat (map collapse_run (runs is_slug_alnum (dropWhile is_slug_alnum cs)))"
      using described_split [of cs] by simp
    also have "\<dots> = concat (map collapse_run (runs is_slug_alnum (c # cs)))"
      using True by (simp add: collapse_run_def)
    finally show ?thesis .
  next
    case False
    with 2 show ?thesis by (simp add: collapse_run_def)
  qed
qed

lemma replace_other_runs_chars:
  "c \<in> set (replace_other_runs s) \<Longrightarrow> is_slug_alnum c \<or> c = CHR ''-''"
  by (induction s rule: replace_other_runs.induct) (auto split: if_splits)

lemma no_double_hyphen_Cons: "c \<noteq> CHR ''-'' \<Longrightarrow> no_double_hyphen (c # s) = no_double_hyphen s"
  by (cases s) simp_all

lemma replace_other_runs_no_double: "no_double_hyphen (replace_other_runs s)"
proof (induction s rule: replace_other_runs.induct)
  case 1
  show ?case by simp
next
  case (2 c cs)
  show ?case
  proof (cases "is_slug_alnum c")
    case True
    then have "c \<noteq> CHR ''-''" using hyphen_not_alnum by auto
    with True 2 show ?thesis by (simp add: no_double_hyphen_Cons)
  next
    case False
    let ?t = "dropWhile (\<lambda>d. \<not> is_slug_alnum d) cs"
    from False 2 have ih: "no_double_hyphen (replace_other_runs ?t)" by simp
    from False have step: "replace_other_runs (c # cs) = CHR ''-'' # replace_other_runs ?t"
      by simp
    show ?thesis
    proof (cases ?t)
      case Nil
      show ?thesis unfolding step Nil by simp
    next
      case (Cons d ds)
      then have alnum: "is_slug_alnum d"
        using hd_dropWhile [of "\<lambda>d. \<not> is_slug_alnum d" cs] by auto
      then have "d \<noteq> CHR ''-''" using hyphen_not_alnum by auto
      with alnum ih [unfolded Cons] show ?thesis unfolding step Cons by simp
    qed
  qed
qed

lemma remove_edge_hyphens_False:
  "remove_edge_hyphens False s = (if s \<noteq> [] \<and> last s = CHR ''-'' then butlast s else s)"
  by (induction s) auto

lemma remove_edge_hyphens_True:
  "remove_edge_hyphens True s =
     remove_edge_hyphens False (if s \<noteq> [] \<and> hd s = CHR ''-'' then tl s else s)"
  by (cases s) auto

lemma no_double_hyphen_tl: "no_double_hyphen s \<Longrightarrow> no_double_hyphen (tl s)"
  by (induction s rule: no_double_hyphen.induct) simp_all

lemma no_double_hyphen_butlast: "no_double_hyphen s \<Longrightarrow> no_double_hyphen (butlast s)"
  by (induction s rule: no_double_hyphen.induct) (auto split: if_splits simp: no_double_hyphen_Cons)

lemma no_double_hyphen_second:
  "no_double_hyphen s \<Longrightarrow> s \<noteq> [] \<Longrightarrow> hd s = CHR ''-'' \<Longrightarrow> tl s = [] \<or> hd (tl s) \<noteq> CHR ''-''"
  by (induction s rule: no_double_hyphen.induct) auto

lemma no_double_hyphen_last_but_one:
  "no_double_hyphen s \<Longrightarrow> s \<noteq> [] \<Longrightarrow> last s = CHR ''-'' \<Longrightarrow>
   butlast s = [] \<or> last (butlast s) \<noteq> CHR ''-''"
  by (induction s rule: no_double_hyphen.induct) (auto split: if_splits)

lemma no_double_hyphen_iff: "no_double_hyphen s \<longleftrightarrow> (\<nexists>u v. s = u @ ''--'' @ v)"
proof (induction s rule: no_double_hyphen.induct)
  case (1 c d cs)
  have "(\<exists>u v. c # d # cs = u @ ''--'' @ v) \<longleftrightarrow>
        (c = CHR ''-'' \<and> d = CHR ''-'') \<or> (\<exists>u v. d # cs = u @ ''--'' @ v)"
  proof
    assume "\<exists>u v. c # d # cs = u @ ''--'' @ v"
    then obtain u v where eq: "c # d # cs = u @ ''--'' @ v" by blast
    show "(c = CHR ''-'' \<and> d = CHR ''-'') \<or> (\<exists>u v. d # cs = u @ ''--'' @ v)"
    proof (cases u)
      case Nil
      with eq show ?thesis by simp
    next
      case (Cons e es)
      with eq have "d # cs = es @ ''--'' @ v" by simp
      then show ?thesis by blast
    qed
  next
    assume "(c = CHR ''-'' \<and> d = CHR ''-'') \<or> (\<exists>u v. d # cs = u @ ''--'' @ v)"
    then show "\<exists>u v. c # d # cs = u @ ''--'' @ v"
    proof
      assume "c = CHR ''-'' \<and> d = CHR ''-''"
      then have "c # d # cs = [] @ ''--'' @ cs" by simp
      then show ?thesis by blast
    next
      assume "\<exists>u v. d # cs = u @ ''--'' @ v"
      then obtain u v where "d # cs = u @ ''--'' @ v" by blast
      then have "c # d # cs = (c # u) @ ''--'' @ v" by simp
      then show ?thesis by blast
    qed
  qed
  with 1 show ?case by simp
qed (simp_all add: append_eq_Cons_conv)

lemma remove_edge_hyphens_edges:
  assumes "no_double_hyphen s"
  shows "remove_edge_hyphens True s = [] \<or>
         (hd (remove_edge_hyphens True s) \<noteq> CHR ''-'' \<and> last (remove_edge_hyphens True s) \<noteq> CHR ''-'')"
proof -
  define s1 where "s1 = (if s \<noteq> [] \<and> hd s = CHR ''-'' then tl s else s)"
  define r where "r = (if s1 \<noteq> [] \<and> last s1 = CHR ''-'' then butlast s1 else s1)"
  have r: "remove_edge_hyphens True s = r"
    by (simp add: remove_edge_hyphens_True remove_edge_hyphens_False s1_def r_def)
  have ndh1: "no_double_hyphen s1"
    using assms by (simp add: s1_def no_double_hyphen_tl)
  have hd1: "s1 = [] \<or> hd s1 \<noteq> CHR ''-''"
    using no_double_hyphen_second [OF assms] by (auto simp: s1_def)
  have last_r: "r = [] \<or> last r \<noteq> CHR ''-''"
    using no_double_hyphen_last_but_one [OF ndh1] by (auto simp: r_def)
  have "r = [] \<or> hd r = hd s1"
    by (cases s1) (auto simp: r_def)
  moreover have "r = [] \<or> s1 \<noteq> []"
    by (auto simp: r_def)
  ultimately have hd_r: "r = [] \<or> hd r \<noteq> CHR ''-''"
    using hd1 by auto
  from hd_r last_r show ?thesis unfolding r by blast
qed

lemma set_remove_edge_hyphens: "set (remove_edge_hyphens b s) \<subseteq> set s"
  by (induction b s rule: remove_edge_hyphens.induct) auto

lemma no_double_hyphen_remove_edge_hyphens:
  "no_double_hyphen s \<Longrightarrow> no_double_hyphen (remove_edge_hyphens True s)"
  by (simp add: remove_edge_hyphens_True remove_edge_hyphens_False no_double_hyphen_tl
      no_double_hyphen_butlast)

lemma remove_edge_hyphens_trim:
  assumes "no_double_hyphen s"
  shows "remove_edge_hyphens True s = trim_hyphens s"
proof -
  define s1 where "s1 = (if s \<noteq> [] \<and> hd s = CHR ''-'' then tl s else s)"
  have ndh1: "no_double_hyphen s1"
    using assms by (simp add: s1_def no_double_hyphen_tl)
  have lead: "dropWhile (\<lambda>c. c = CHR ''-'') s = s1"
  proof (cases s)
    case Nil
    then show ?thesis by (simp add: s1_def)
  next
    case (Cons c cs)
    show ?thesis
    proof (cases "c = CHR ''-''")
      case True
      with Cons no_double_hyphen_second [OF assms] have "cs = [] \<or> hd cs \<noteq> CHR ''-''"
        by simp
      then have "dropWhile (\<lambda>c. c = CHR ''-'') cs = cs"
        by (cases cs) auto
      with True Cons show ?thesis by (simp add: s1_def)
    next
      case False
      with Cons show ?thesis by (simp add: s1_def)
    qed
  qed
  have trail: "rev (dropWhile (\<lambda>c. c = CHR ''-'') (rev s1))
      = (if s1 \<noteq> [] \<and> last s1 = CHR ''-'' then butlast s1 else s1)"
  proof (cases s1 rule: rev_cases)
    case Nil
    then show ?thesis by simp
  next
    case (snoc u x)
    show ?thesis
    proof (cases "x = CHR ''-''")
      case True
      with snoc no_double_hyphen_last_but_one [OF ndh1] have "u = [] \<or> last u \<noteq> CHR ''-''"
        by simp
      then have "dropWhile (\<lambda>c. c = CHR ''-'') (rev u) = rev u"
        by (cases u rule: rev_cases) auto
      with True snoc show ?thesis by simp
    next
      case False
      with snoc show ?thesis by simp
    qed
  qed
  show ?thesis
    unfolding trim_hyphens_def lead trail
    by (simp add: remove_edge_hyphens_True remove_edge_hyphens_False s1_def)
qed

lemma ascii_toLowerCase_slug:
  "set s \<subseteq> set slug_alphabet \<Longrightarrow> ascii_toLowerCase s = s"
proof -
  assume "set s \<subseteq> set slug_alphabet"
  then have "\<forall>c\<in>set s. is_slug_alnum c \<or> c = CHR ''-''"
    using slug_alphabet_iff by blast
  then have "\<forall>c\<in>set s. \<not> is_upper c"
    using alnum_not_upper hyphen_not_upper by blast
  then have "map ascii_to_lower s = map (\<lambda>c. c) s"
    by (intro map_cong) (auto simp: ascii_to_lower_def)
  then show ?thesis by (simp add: ascii_toLowerCase_def)
qed

lemma keeps_slug_strings_ascii: "keeps_slug_strings ascii_toLowerCase"
  by (simp add: keeps_slug_strings_def ascii_toLowerCase_slug)

lemma slugify_lowered:
  "toLowerCase text = lowered \<Longrightarrow>
   slugify toLowerCase text = remove_edge_hyphens True (replace_other_runs lowered)"
  by (simp add: slugify_def)

lemma replace_other_runs_fixed:
  "set s \<subseteq> set slug_alphabet \<Longrightarrow> no_double_hyphen s \<Longrightarrow> replace_other_runs s = s"
proof (induction s rule: replace_other_runs.induct)
  case 1
  show ?case by simp
next
  case (2 c cs)
  show ?case
  proof (cases "is_slug_alnum c")
    case True
    then have "c \<noteq> CHR ''-''" using hyphen_not_alnum by auto
    with True 2 show ?thesis by (simp add: no_double_hyphen_Cons)
  next
    case False
    with "2.prems"(1) have c: "c = CHR ''-''" by (simp add: slug_alphabet_iff)
    have "cs = [] \<or> hd cs \<noteq> CHR ''-''"
      using no_double_hyphen_second [OF "2.prems"(2)] c by simp
    moreover have "cs = [] \<or> is_slug_alnum (hd cs) \<or> hd cs = CHR ''-''"
      using "2.prems"(1) by (cases cs) (auto simp: slug_alphabet_iff)
    ultimately have "dropWhile (\<lambda>d. \<not> is_slug_alnum d) cs = cs"
      by (cases cs) auto
    moreover have "no_double_hyphen cs"
      using no_double_hyphen_tl [OF "2.prems"(2)] by simp
    ultimately show ?thesis
      using False "2.IH"(2) "2.prems"(1) c by simp
  qed
qed

lemma remove_edge_hyphens_fixed:
  "s = [] \<or> (hd s \<noteq> CHR ''-'' \<and> last s \<noteq> CHR ''-'') \<Longrightarrow> remove_edge_hyphens True s = s"
  by (auto simp: remove_edge_hyphens_True remove_edge_hyphens_False)

text \<open>
  C6. Whatever the platform's lowercasing is, \<open>slugify\<close> does what the specification
  describes: it lowercases the string, replaces every maximal run of characters outside
  \<^verbatim>\<open>[a-z0-9]\<close> with a single hyphen and trims the leading and trailing hyphens. With a
  lowercasing that turns \<open>Hello, World!\<close> into \<open>hello, world!\<close> the slug is
  \<open>hello-world\<close>, and with one that turns \<open>--Leading/Trailing--\<close> between two pairs of
  spaces into the same in lower case the slug is \<open>leading-trailing\<close>.
\<close>

theorem slugify_as_described:
  "slugify toLowerCase text = slugify_described toLowerCase text
   \<and> (toLowerCase ''Hello, World!'' = ''hello, world!''
        \<longrightarrow> slugify toLowerCase ''Hello, World!'' = ''hello-world'')
   \<and> (toLowerCase ''  --Leading/Trailing--  '' = ''  --leading/trailing--  ''
        \<longrightarrow> slugify toLowerCase ''  --Leading/Trailing--  '' = ''leading-trailing'')"
proof -
  have "slugify toLowerCase text = slugify_described toLowerCase text"
    unfolding slugify_def slugify_described_def
    using replace_other_runs_no_double [of "toLowerCase text"]
    by (simp add: remove_edge_hyphens_trim replace_other_runs_described)
  moreover have "remove_edge_hyphens True (replace_other_runs ''hello, world!'') = ''hello-world''"
    by code_simp
  moreover have "remove_edge_hyphens True (replace_other_runs ''  --leading/trailing--  '')
      = ''leading-trailing''"
    by code_simp
  ultimately show ?thesis
    by (simp add: slugify_lowered)
qed

text \<open>The same with the lowercasing of ASCII text, on the two examples.\<close>

theorem slugify_as_described_witness:
  "ascii_toLowerCase ''Hello, World!'' = ''hello, world!''
   \<and> slugify ascii_toLowerCase ''Hello, World!'' = ''hello-world''
   \<and> slugify_described ascii_toLowerCase ''Hello, World!'' = ''hello-world''
   \<and> ascii_toLowerCase ''  --Leading/Trailing--  '' = ''  --leading/trailing--  ''
   \<and> slugify ascii_toLowerCase ''  --Leading/Trailing--  '' = ''leading-trailing''"
proof -
  have hello: "ascii_toLowerCase ''Hello, World!'' = ''hello, world!''"
    by code_simp
  have leading: "ascii_toLowerCase ''  --Leading/Trailing--  '' = ''  --leading/trailing--  ''"
    by code_simp
  note t = slugify_as_described [of ascii_toLowerCase "''Hello, World!''"]
  from t hello have a: "slugify ascii_toLowerCase ''Hello, World!'' = ''hello-world''"
    by blast
  from t have "slugify ascii_toLowerCase ''Hello, World!''
      = slugify_described ascii_toLowerCase ''Hello, World!''"
    by blast
  with a have b: "slugify_described ascii_toLowerCase ''Hello, World!'' = ''hello-world''"
    by simp
  from t leading
  have c: "slugify ascii_toLowerCase ''  --Leading/Trailing--  '' = ''leading-trailing''"
    by blast
  from hello a b leading c show ?thesis by blast
qed

text \<open>
  C10. Whatever the platform's lowercasing is, a slug has only the characters \<^verbatim>\<open>a-z\<close>,
  \<^verbatim>\<open>0-9\<close> and the hyphen, has no two hyphens side by side and neither starts nor ends
  with a hyphen; and when the lowercasing returns strings of these characters as they
  are, a slug is its own slug.
\<close>

theorem slugify_canonical_idempotent:
  "set (slugify toLowerCase text) \<subseteq> set slug_alphabet
   \<and> (\<nexists>u v. slugify toLowerCase text = u @ ''--'' @ v)
   \<and> (\<nexists>r. slugify toLowerCase text = CHR ''-'' # r)
   \<and> (\<nexists>r. slugify toLowerCase text = r @ ''-'')
   \<and> (keeps_slug_strings toLowerCase \<longrightarrow>
        slugify toLowerCase (slugify toLowerCase text) = slugify toLowerCase text)"
proof -
  let ?s = "replace_other_runs (toLowerCase text)"
  let ?slug = "slugify toLowerCase text"
  have ndh_s: "no_double_hyphen ?s" by (rule replace_other_runs_no_double)
  have chars: "set ?slug \<subseteq> set slug_alphabet"
    using set_remove_edge_hyphens [of True ?s] replace_other_runs_chars [of _ "toLowerCase text"]
    by (auto simp: slugify_def slug_alphabet_iff)
  have ndh: "no_double_hyphen ?slug"
    unfolding slugify_def by (rule no_double_hyphen_remove_edge_hyphens [OF ndh_s])
  have edges: "?slug = [] \<or> (hd ?slug \<noteq> CHR ''-'' \<and> last ?slug \<noteq> CHR ''-'')"
    unfolding slugify_def by (rule remove_edge_hyphens_edges [OF ndh_s])
  have no_pair: "\<nexists>u v. ?slug = u @ ''--'' @ v"
    using ndh by (simp add: no_double_hyphen_iff)
  have no_lead: "\<nexists>r. ?slug = CHR ''-'' # r"
    using edges by auto
  have no_trail: "\<nexists>r. ?slug = r @ ''-''"
    using edges by auto
  have again: "slugify toLowerCase ?slug = ?slug" if "keeps_slug_strings toLowerCase"
  proof -
    from that chars have "toLowerCase ?slug = ?slug"
      unfolding keeps_slug_strings_def by blast
    then have "slugify toLowerCase ?slug = remove_edge_hyphens True (replace_other_runs ?slug)"
      by (rule slugify_lowered)
    also have "\<dots> = ?slug"
      using chars ndh edges by (simp add: replace_other_runs_fixed remove_edge_hyphens_fixed)
    finally show ?thesis .
  qed
  with chars no_pair no_lead no_trail show ?thesis by blast
qed

text \<open>The same with the lowercasing of ASCII text, on a string with capitals and marks.\<close>

theorem slugify_canonical_idempotent_witness:
  "keeps_slug_strings ascii_toLowerCase
   \<and> slugify ascii_toLowerCase ''Hello, World!'' = ''hello-world''
   \<and> slugify ascii_toLowerCase (slugify ascii_toLowerCase ''Hello, World!'')
       = slugify ascii_toLowerCase ''Hello, World!''"
proof -
  have value_of: "slugify ascii_toLowerCase ''Hello, World!'' = ''hello-world''"
    by code_simp
  from slugify_canonical_idempotent [of ascii_toLowerCase "''Hello, World!''"]
    keeps_slug_strings_ascii
  have "slugify ascii_toLowerCase (slugify ascii_toLowerCase ''Hello, World!'')
       = slugify ascii_toLowerCase ''Hello, World!''"
    by blast
  with value_of keeps_slug_strings_ascii show ?thesis by blast
qed

end
